theory Spec2Isabelle
  imports Main "HOL-Library.Word"
begin

unbundle bit_operations_syntax

section \<open>Data model\<close>

text \<open>
  Go's \<^verbatim>\<open>int\<close> is a signed machine integer, taken here at its 64-bit width; a
  \<^verbatim>\<open>rune\<close> is an \<^verbatim>\<open>int32\<close>. Neither is ever added to or multiplied in
  the program, so no result below depends on the chosen width. A Go string is a sequence
  of bytes and is modelled as a \<^typ>\<open>string\<close>, whose characters are bytes.
\<close>

type_synonym go_int = "64 word"
type_synonym rune = "32 word"

text \<open>
  \<^verbatim>\<open>type resolutionDTO struct { Width, Height *int; Scan *rune }\<close>:
  a pointer field is \<open>None\<close> when it is \<^verbatim>\<open>nil\<close> and \<open>Some v\<close> when it
  points to \<open>v\<close>. The pointers are only read, so no store is needed.
\<close>

record resolutionDTO =
  Width :: "go_int option"
  Height :: "go_int option"
  Scan :: "rune option"

text \<open>\<^verbatim>\<open>type Resolution struct { Width, Height int; Scan rune }\<close>\<close>

record Resolution =
  Width :: go_int
  Height :: go_int
  Scan :: rune

text \<open>
  What can go wrong at run time. \<open>NilDereference\<close> is Go's panic on reading through a
  \<^verbatim>\<open>nil\<close> pointer. \<open>FmtUnsupported\<close> marks a use of the \<^verbatim>\<open>fmt\<close> package
  outside the fragment of it that is modelled below.
\<close>

datatype fault = NilDereference | FmtUnsupported

definition and_then :: "fault + 'a \<Rightarrow> ('a \<Rightarrow> fault + 'b) \<Rightarrow> fault + 'b" where
  "and_then m f = (case m of Inl e \<Rightarrow> Inl e | Inr v \<Rightarrow> f v)"

text \<open>The read \<^verbatim>\<open>*p\<close> through a pointer.\<close>

definition deref :: "'a option \<Rightarrow> fault + 'a" where
  "deref p = (case p of None \<Rightarrow> Inl NilDereference | Some v \<Rightarrow> Inr v)"

section \<open>The conversion\<close>

text \<open>
  The body of \<^verbatim>\<open>AsResolution\<close>, statement by statement, with the contents of the
  local \<^verbatim>\<open>result\<close> before the first assignment as a parameter.
\<close>

definition AsResolution_from :: "Resolution \<Rightarrow> resolutionDTO \<Rightarrow> fault + Resolution" where
  "AsResolution_from result rdto =
     and_then
       (if resolutionDTO.Width rdto = None then Inr (result\<lparr>Width := 0\<rparr>)
        else and_then (deref (resolutionDTO.Width rdto)) (\<lambda>v. Inr (result\<lparr>Width := v\<rparr>)))
       (\<lambda>result.
     and_then
       (if resolutionDTO.Height rdto = None then Inr (result\<lparr>Height := 0\<rparr>)
        else and_then (deref (resolutionDTO.Height rdto)) (\<lambda>v. Inr (result\<lparr>Height := v\<rparr>)))
       (\<lambda>result.
     and_then
       (if resolutionDTO.Scan rdto = None then Inr (result\<lparr>Scan := of_char CHR ''P''\<rparr>)
        else and_then (deref (resolutionDTO.Scan rdto)) (\<lambda>v. Inr (result\<lparr>Scan := v\<rparr>)))
       (\<lambda>result. Inr result)))"

text \<open>\<^verbatim>\<open>var result Resolution\<close> starts from Go's zero value.\<close>

definition AsResolution :: "resolutionDTO \<Rightarrow> fault + Resolution" where
  "AsResolution rdto = AsResolution_from \<lparr>Width = 0, Height = 0, Scan = 0\<rparr> rdto"

section \<open>The fragment of Go's fmt and unicode/utf8 used by the program\<close>

text \<open>The conversion \<^verbatim>\<open>byte(x)\<close> keeps the low eight bits; a byte of a string is a character.\<close>

definition byte_char :: "8 word \<Rightarrow> char" where
  "byte_char b = char_of (unat b)"

text \<open>
  \<^verbatim>\<open>utf8.AppendRune\<close>, returning the bytes it appends. The comparisons are on
  \<^verbatim>\<open>uint32(r)\<close>, the shifts on the signed \<^verbatim>\<open>r\<close>. A code point above
  \<^verbatim>\<open>MaxRune\<close> (which includes every negative rune) or in the surrogate range
  is replaced by \<^verbatim>\<open>RuneError\<close>, U+FFFD.
\<close>

definition AppendRune :: "rune \<Rightarrow> string" where
  "AppendRune r =
     (if r \<le> 0x7F then [byte_char (ucast r)]
      else if r \<le> 0x7FF then
        [byte_char (0xC0 OR ucast (signed_drop_bit 6 r)),
         byte_char (0x80 OR (ucast r AND 0x3F))]
      else
        let r' = (if r > 0x10FFFF \<or> (0xD800 \<le> r \<and> r \<le> 0xDFFF) then 0xFFFD else r) in
        if (r > 0x10FFFF \<or> (0xD800 \<le> r \<and> r \<le> 0xDFFF)) \<or> r \<le> 0xFFFF then
          [byte_char (0xE0 OR ucast (signed_drop_bit 12 r')),
           byte_char (0x80 OR (ucast (signed_drop_bit 6 r') AND 0x3F)),
           byte_char (0x80 OR (ucast r' AND 0x3F))]
        else
          [byte_char (0xF0 OR ucast (signed_drop_bit 18 r')),
           byte_char (0x80 OR (ucast (signed_drop_bit 12 r') AND 0x3F)),
           byte_char (0x80 OR (ucast (signed_drop_bit 6 r') AND 0x3F)),
           byte_char (0x80 OR (ucast r' AND 0x3F))])"

text \<open>
  \<^verbatim>\<open>utf8.ValidRune\<close>: the code points that have an encoding of their own, read
  from the signed rune.
\<close>

definition ValidRune :: "rune \<Rightarrow> bool" where
  "ValidRune r = (0 \<le> sint r \<and> sint r < 0xD800 \<or> 0xDFFF < sint r \<and> sint r \<le> 0x10FFFF)"

text \<open>
  \<^verbatim>\<open>fmtC(c uint64)\<close>, the verb \<^verbatim>\<open>%c\<close> without flags: the operand arrives
  widened to 64 bits, and a value above \<^verbatim>\<open>MaxRune\<close> is printed as U+FFFD.
\<close>

definition fmtC :: "64 word \<Rightarrow> string" where
  "fmtC c = AppendRune (if c > 0x10FFFF then 0xFFFD else ucast c)"

text \<open>
  The digit loop of \<^verbatim>\<open>fmtInteger\<close> in base 10, which fills the buffer from its end:
  \<^verbatim>\<open>for u >= 10 { next := u / 10; buf[i] = byte('0' + u - next*10); u = next }\<close>
  followed by \<^verbatim>\<open>buf[i] = digits[u]\<close>.
\<close>

function fmt_digits :: "64 word \<Rightarrow> string \<Rightarrow> string" where
  "fmt_digits u buf =
     (if u \<ge> 10 then
        (let next = u div 10
         in fmt_digits next (byte_char (ucast (of_char CHR ''0'' + u - next * 10)) # buf))
      else (''0123456789abcdefx'' ! unat u) # buf)"
  by pat_completeness auto
termination
  by (relation "measure (\<lambda>(u, buf). unat u)") (auto simp: unat_div word_le_nat_alt)

declare fmt_digits.simps [simp del]

text \<open>
  \<^verbatim>\<open>fmtInteger(u uint64, 10, signed, verb, ldigits)\<close> without flags, width or
  precision: the sign is read from \<^verbatim>\<open>int64(u)\<close>, the digits are those of the
  magnitude, and a minus sign goes in front of a negative number.
\<close>

definition fmtInteger :: "64 word \<Rightarrow> string" where
  "fmtInteger u =
     (let negative = (sint u < 0);
          u' = (if negative then - u else u);
          buf = fmt_digits u' []
      in if negative then CHR ''-'' # buf else buf)"

text \<open>
  The operands the program passes to the formatting functions: an \<^verbatim>\<open>int\<close>, a
  \<^verbatim>\<open>rune\<close>, a value with a \<^verbatim>\<open>String\<close> method (held as the string the method
  returns) and an \<^verbatim>\<open>error\<close> (held as its message).
\<close>

datatype operand = IntOp go_int | RuneOp rune | StringerOp string | ErrorOp string

text \<open>
  \<^verbatim>\<open>printArg\<close> for these operands and the verbs \<^verbatim>\<open>%d\<close>, \<^verbatim>\<open>%c\<close> and
  \<^verbatim>\<open>%v\<close>. A signed integer is widened with its sign (\<^verbatim>\<open>uint64(f)\<close>).
\<close>

definition printArg :: "operand \<Rightarrow> char \<Rightarrow> fault + string" where
  "printArg arg verb =
     (case arg of
        IntOp f \<Rightarrow>
          (if verb = CHR ''d'' \<or> verb = CHR ''v'' then Inr (fmtInteger f)
           else if verb = CHR ''c'' then Inr (fmtC f)
           else Inl FmtUnsupported)
      | RuneOp f \<Rightarrow>
          (if verb = CHR ''d'' \<or> verb = CHR ''v'' then Inr (fmtInteger (scast f))
           else if verb = CHR ''c'' then Inr (fmtC (scast f))
           else Inl FmtUnsupported)
      | StringerOp s \<Rightarrow> (if verb = CHR ''v'' then Inr s else Inl FmtUnsupported)
      | ErrorOp s \<Rightarrow> (if verb = CHR ''v'' then Inr s else Inl FmtUnsupported))"

text \<open>
  \<^verbatim>\<open>doPrintf\<close>: text is copied, \<^verbatim>\<open>%%\<close> prints a percent sign, and a verb
  consumes the next operand. Flags, widths, a missing or a surplus operand are outside
  the fragment.
\<close>

fun doPrintf :: "string \<Rightarrow> operand list \<Rightarrow> fault + string" where
  "doPrintf [] [] = Inr []"
| "doPrintf [] (a # as) = Inl FmtUnsupported"
| "doPrintf (c # format) a =
     (if c \<noteq> CHR ''%'' then and_then (doPrintf format a) (\<lambda>out. Inr (c # out))
      else case format of
             [] \<Rightarrow> Inl FmtUnsupported
           | verb # format' \<Rightarrow>
               (if verb = CHR ''%'' then
                  and_then (doPrintf format' a) (\<lambda>out. Inr (CHR ''%'' # out))
                else case a of
                       [] \<Rightarrow> Inl FmtUnsupported
                     | arg # rest \<Rightarrow>
                         and_then (printArg arg verb) (\<lambda>s.
                         and_then (doPrintf format' rest) (\<lambda>out. Inr (s @ out)))))"

definition Sprintf :: "string \<Rightarrow> operand list \<Rightarrow> fault + string" where
  "Sprintf format a = doPrintf format a"

section \<open>Rendering\<close>

text \<open>\<^verbatim>\<open>return fmt.Sprintf("[%d, %d] at %c", r.Width, r.Height, r.Scan)\<close>\<close>

definition String :: "Resolution \<Rightarrow> fault + string" where
  "String r = Sprintf ''[%d, %d] at %c'' [IntOp (Width r), IntOp (Height r), RuneOp (Scan r)]"

section \<open>The row loop of main\<close>

text \<open>
  What \<^verbatim>\<open>rows.Scan(&some)\<close> leaves behind for one row: an error (its message), or
  the pointer \<^verbatim>\<open>some\<close>, which is \<^verbatim>\<open>nil\<close> when the column is null.
\<close>

datatype scanned = ScanError string | Scanned "resolutionDTO option"

text \<open>
  The body of the loop, returning the message that \<^verbatim>\<open>log.Printf\<close> formats (the
  logger's own prefix and final newline are left out). The call
  \<^verbatim>\<open>some.AsResolution()\<close> of a method with a value receiver reads through
  \<^verbatim>\<open>some\<close>; the operand of \<^verbatim>\<open>%v\<close> has a \<^verbatim>\<open>String\<close> method, which
  \<^verbatim>\<open>fmt\<close> calls.
\<close>

definition main_row :: "scanned \<Rightarrow> fault + string" where
  "main_row row =
     (case row of
        ScanError err \<Rightarrow> Sprintf ''Failed to scan: %v'' [ErrorOp err]
      | Scanned some \<Rightarrow>
          (if some \<noteq> None then
             and_then (deref some) (\<lambda>rdto.
             and_then (AsResolution rdto) (\<lambda>res.
             and_then (String res) (\<lambda>s.
             Sprintf ''Got %v'' [StringerOp s])))
           else Sprintf ''No defined resolution'' []))"

text \<open>\<^verbatim>\<open>for rows.Next() { ... }\<close>: the messages logged, in order.\<close>

fun main_rows :: "scanned list \<Rightarrow> fault + string list" where
  "main_rows [] = Inr []"
| "main_rows (row # rows) =
     and_then (main_row row) (\<lambda>line.
     and_then (main_rows rows) (\<lambda>lines. Inr (line # lines)))"

section \<open>Properties of the conversion\<close>

lemma AsResolution_from_eq:
  "AsResolution_from init rdto =
     Inr \<lparr>Width = (case resolutionDTO.Width rdto of None \<Rightarrow> 0 | Some w \<Rightarrow> w),
          Height = (case resolutionDTO.Height rdto of None \<Rightarrow> 0 | Some h \<Rightarrow> h),
          Scan = (case resolutionDTO.Scan rdto of None \<Rightarrow> 80 | Some s \<Rightarrow> s)\<rparr>"
  by (cases init)
     (simp add: AsResolution_from_def and_then_def deref_def split: option.split)

lemma AsResolution_eq:
  "AsResolution rdto =
     Inr \<lparr>Width = (case resolutionDTO.Width rdto of None \<Rightarrow> 0 | Some w \<Rightarrow> w),
          Height = (case resolutionDTO.Height rdto of None \<Rightarrow> 0 | Some h \<Rightarrow> h),
          Scan = (case resolutionDTO.Scan rdto of None \<Rightarrow> 80 | Some s \<Rightarrow> s)\<rparr>"
  by (simp add: AsResolution_def AsResolution_from_eq)

text \<open>
  C1. For every transfer value, whichever of its fields are absent, the conversion
  returns a domain value: its width is 0 when the width is absent and the stored width
  otherwise, likewise its height, and its scan mode is \<open>P\<close> when the scan mode is
  absent and the stored one otherwise.
\<close>

theorem AsResolution_defaults:
  "\<exists>res. AsResolution rdto = Inr res
     \<and> Width res = (case resolutionDTO.Width rdto of None \<Rightarrow> 0 | Some w \<Rightarrow> w)
     \<and> Height res = (case resolutionDTO.Height rdto of None \<Rightarrow> 0 | Some h \<Rightarrow> h)
     \<and> Scan res = (case resolutionDTO.Scan rdto of None \<Rightarrow> of_char CHR ''P'' | Some s \<Rightarrow> s)"
  by (simp add: AsResolution_eq split: option.split)

text \<open>
  C3. A transfer value with all three fields present converts to exactly those three
  values; and converting the transfer value rebuilt from a converted domain value, with
  every field present, gives that domain value again.
\<close>

theorem AsResolution_verbatim_idempotent:
  "AsResolution \<lparr>resolutionDTO.Width = Some w, Height = Some h, Scan = Some s\<rparr>
     = Inr \<lparr>Width = w, Height = h, Scan = s\<rparr>
   \<and> (\<forall>res. AsResolution rdto = Inr res \<longrightarrow>
         AsResolution \<lparr>resolutionDTO.Width = Some (Width res), Height = Some (Height res),
                       Scan = Some (Scan res)\<rparr> = Inr res)"
  by (simp add: AsResolution_eq)

theorem AsResolution_verbatim_idempotent_witness:
  "AsResolution \<lparr>resolutionDTO.Width = Some 10, Height = None, Scan = None\<rparr>
     = Inr \<lparr>Width = 10, Height = 0, Scan = 80\<rparr>
   \<and> AsResolution \<lparr>resolutionDTO.Width = Some 10, Height = Some 0, Scan = Some 80\<rparr>
     = Inr \<lparr>Width = 10, Height = 0, Scan = 80\<rparr>"
proof -
  have first: "AsResolution \<lparr>resolutionDTO.Width = Some 10, Height = None, Scan = None\<rparr>
      = Inr \<lparr>Width = 10, Height = 0, Scan = 80\<rparr>"
    by (simp add: AsResolution_def AsResolution_from_def and_then_def deref_def)
  from AsResolution_verbatim_idempotent
    [of 10 0 80 "\<lparr>resolutionDTO.Width = Some 10, Height = None, Scan = None\<rparr>"] first
  show ?thesis by simp
qed

text \<open>
  C4. The conversion always returns a domain value: in a model where reading through a
  nil pointer is a fault, no transfer value makes it fault, whichever fields are nil.
\<close>

theorem AsResolution_total:
  "(\<exists>res. AsResolution rdto = Inr res) \<and> (\<forall>e. AsResolution rdto \<noteq> Inl e)"
  by (simp add: AsResolution_eq)

text \<open>
  C6. For every transfer value the conversion returns a domain value with all three
  fields assigned on every path: whatever the local result held before the assignments,
  the width is the stored width or 0 when it is absent, the height the stored height or 0
  when it is absent, and the scan mode the stored one or \<open>P\<close> when it is absent. So
  the result does not depend on the prior contents of the local result, the all-absent
  transfer value yields the defaults 0, 0 and \<open>P\<close>, and every domain value the
  conversion returns is also the conversion of a transfer value with no field absent.
\<close>

theorem AsResolution_fully_populated:
  "AsResolution_from init rdto =
     Inr \<lparr>Width = (case resolutionDTO.Width rdto of None \<Rightarrow> 0 | Some w \<Rightarrow> w),
          Height = (case resolutionDTO.Height rdto of None \<Rightarrow> 0 | Some h \<Rightarrow> h),
          Scan = (case resolutionDTO.Scan rdto of None \<Rightarrow> of_char CHR ''P'' | Some s \<Rightarrow> s)\<rparr>
   \<and> AsResolution_from init rdto = AsResolution rdto
   \<and> AsResolution \<lparr>resolutionDTO.Width = None, Height = None, Scan = None\<rparr>
       = Inr \<lparr>Width = 0, Height = 0, Scan = of_char CHR ''P''\<rparr>
   \<and> (\<exists>w h s. AsResolution rdto = Inr \<lparr>Width = w, Height = h, Scan = s\<rparr>
        \<and> AsResolution \<lparr>resolutionDTO.Width = Some w, Height = Some h, Scan = Some s\<rparr>
            = AsResolution rdto)"
  by (simp add: AsResolution_eq AsResolution_from_eq split: option.split)

text \<open>
  C9. The conversion is not injective: the transfer value with all fields absent and the
  one that stores 0, 0 and \<open>P\<close> are different transfer values with the same domain
  value.
\<close>

theorem AsResolution_not_injective:
  "AsResolution \<lparr>resolutionDTO.Width = None, Height = None, Scan = None\<rparr>
     = AsResolution \<lparr>resolutionDTO.Width = Some 0, Height = Some 0,
                     Scan = Some (of_char CHR ''P'')\<rparr>
   \<and> \<lparr>resolutionDTO.Width = None, Height = None, Scan = None\<rparr>
     \<noteq> \<lparr>resolutionDTO.Width = Some 0, Height = Some 0, Scan = Some (of_char CHR ''P'')\<rparr>
   \<and> \<not> inj AsResolution"
proof -
  let ?a = "\<lparr>resolutionDTO.Width = None, Height = None, Scan = None\<rparr>"
  let ?b = "\<lparr>resolutionDTO.Width = Some 0, Height = Some 0, Scan = Some (of_char CHR ''P'')\<rparr>"
  have same: "AsResolution ?a = AsResolution ?b"
    by (simp add: AsResolution_eq)
  have diff: "?a \<noteq> ?b"
    by simp
  from same diff have "\<not> inj AsResolution"
    by (auto dest: injD)
  with same diff show ?thesis by blast
qed

section \<open>Decimal digits\<close>

text \<open>
  The digit loop prepends to its buffer, every character it writes is a decimal digit,
  and different magnitudes get different digit strings; so \<open>fmtInteger\<close> is
  injective and writes nothing but digits and a leading minus sign.
\<close>

lemma word_lt10_cases:
  fixes m :: "64 word"
  assumes "m < 10"
  shows "m = 0 \<or> m = 1 \<or> m = 2 \<or> m = 3 \<or> m = 4 \<or> m = 5 \<or> m = 6 \<or> m = 7 \<or> m = 8 \<or> m = 9"
  using assms by unat_arith

lemma digit_byte_small:
  fixes m :: "64 word"
  assumes "m < 10"
  shows "byte_char (ucast (48 + m)) = ''0123456789abcdefx'' ! unat m"
  using word_lt10_cases[OF assms]
  by (elim disjE) (simp_all add: byte_char_def char_of_def bit_0)

lemma digit_byte:
  fixes u :: "64 word"
  shows "byte_char (ucast (48 + u - u div 10 * 10)) = ''0123456789abcdefx'' ! unat (u mod 10)"
proof -
  have "u - u div 10 * 10 = u mod 10"
    by (simp add: minus_div_mult_eq_mod)
  then have eq: "48 + u - u div 10 * 10 = 48 + u mod 10"
    by simp
  have "u mod 10 < 10"
    by (simp add: word_mod_less_divisor)
  then show ?thesis
    unfolding eq by (rule digit_byte_small)
qed

lemma fmt_digits_step:
  "10 \<le> u \<Longrightarrow> fmt_digits u buf = fmt_digits (u div 10) ((''0123456789abcdefx'' ! unat (u mod 10)) # buf)"
  by (subst fmt_digits.simps) (simp add: digit_byte Let_def)

lemma fmt_digits_last:
  assumes "u < 10"
  shows "fmt_digits u buf = (''0123456789abcdefx'' ! unat u) # buf"
proof -
  from assms have "\<not> 10 \<le> u" by simp
  then show ?thesis by (subst fmt_digits.simps) simp
qed

lemma unat_div10_less:
  fixes u :: "64 word"
  shows "10 \<le> u \<Longrightarrow> unat (u div 10) < unat u"
  by (simp add: unat_div word_le_nat_alt)

lemma fmt_digits_buf: "fmt_digits u buf = fmt_digits u [] @ buf"
proof (induction u arbitrary: buf rule: measure_induct_rule [where f = unat])
  case (less u)
  show ?case
  proof (cases "10 \<le> u")
    case True
    let ?d = "''0123456789abcdefx'' ! unat (u mod 10)"
    have "fmt_digits u buf = fmt_digits (u div 10) (?d # buf)"
      using True by (rule fmt_digits_step)
    also have "\<dots> = fmt_digits (u div 10) [] @ (?d # buf)"
      by (rule less.IH [OF unat_div10_less [OF True]])
    also have "\<dots> = (fmt_digits (u div 10) [] @ [?d]) @ buf"
      by simp
    also have "fmt_digits (u div 10) [] @ [?d] = fmt_digits (u div 10) [?d]"
      by (rule less.IH [OF unat_div10_less [OF True], symmetric])
    also have "\<dots> = fmt_digits u []"
      using True by (rule fmt_digits_step [symmetric])
    finally show ?thesis .
  next
    case False
    then show ?thesis by (simp add: fmt_digits_last not_le)
  qed
qed

lemma fmt_digits_snoc:
  "10 \<le> u \<Longrightarrow> fmt_digits u [] = fmt_digits (u div 10) [] @ [''0123456789abcdefx'' ! unat (u mod 10)]"
  by (simp add: fmt_digits_step [of u "[]"] fmt_digits_buf [of "u div 10" "[_]"])

lemma fmt_digits_nonempty: "fmt_digits u [] \<noteq> []"
  by (cases "10 \<le> u") (simp_all add: fmt_digits_snoc fmt_digits_last not_le)

lemma digit_inj:
  fixes a b :: "64 word"
  assumes "a < 10" "b < 10" "''0123456789abcdefx'' ! unat a = ''0123456789abcdefx'' ! unat b"
  shows "a = b"
  using word_lt10_cases[OF assms(1)] word_lt10_cases[OF assms(2)] assms(3)
  by (elim disjE) simp_all

lemma digit_in:
  fixes a :: "64 word"
  assumes "a < 10"
  shows "''0123456789abcdefx'' ! unat a \<in> set ''0123456789''"
  using word_lt10_cases[OF assms]
  by (elim disjE) simp_all

lemma fmt_digits_set: "set (fmt_digits u []) \<subseteq> set ''0123456789''"
proof (induction u rule: measure_induct_rule [where f = unat])
  case (less u)
  show ?case
  proof (cases "10 \<le> u")
    case True
    have "u mod 10 < 10"
      by (simp add: word_mod_less_divisor)
    from digit_in[OF this] less.IH [OF unat_div10_less [OF True]] show ?thesis
      by (simp add: fmt_digits_snoc [OF True])
  next
    case False
    then have "u < 10" by simp
    from digit_in[OF this] show ?thesis
      by (simp add: fmt_digits_last [OF \<open>u < 10\<close>])
  qed
qed

lemma fmt_digits_inj: "fmt_digits u [] = fmt_digits v [] \<Longrightarrow> u = v"
proof (induction u arbitrary: v rule: measure_induct_rule [where f = unat])
  case (less u)
  show ?case
  proof (cases "10 \<le> u")
    case u: True
    show ?thesis
    proof (cases "10 \<le> v")
      case v: True
      from less.prems have
        "fmt_digits (u div 10) [] @ [''0123456789abcdefx'' ! unat (u mod 10)] =
         fmt_digits (v div 10) [] @ [''0123456789abcdefx'' ! unat (v mod 10)]"
        by (simp add: fmt_digits_snoc [OF u] fmt_digits_snoc [OF v])
      then have q: "fmt_digits (u div 10) [] = fmt_digits (v div 10) []"
        and d: "''0123456789abcdefx'' ! unat (u mod 10) = ''0123456789abcdefx'' ! unat (v mod 10)"
        by simp_all
      from q have "u div 10 = v div 10"
        by (rule less.IH [OF unat_div10_less [OF u]])
      moreover have "u mod 10 = v mod 10"
        by (rule digit_inj [OF _ _ d]) (simp_all add: word_mod_less_divisor)
      ultimately show ?thesis
        by (metis div_mult_mod_eq)
    next
      case False
      then have "v < 10" by simp
      with less.prems fmt_digits_nonempty [of "u div 10"] show ?thesis
        by (simp add: fmt_digits_snoc [OF u] fmt_digits_last)
    qed
  next
    case False
    then have u: "u < 10" by simp
    show ?thesis
    proof (cases "10 \<le> v")
      case v: True
      with less.prems fmt_digits_nonempty [of "v div 10"] u show ?thesis
        by (simp add: fmt_digits_snoc [OF v] fmt_digits_last)
    next
      case False
      then have "v < 10" by simp
      with less.prems u show ?thesis
        by (auto simp: fmt_digits_last intro: digit_inj)
    qed
  qed
qed

lemma fmtInteger_eq:
  "fmtInteger u = (if sint u < 0 then CHR ''-'' # fmt_digits (- u) [] else fmt_digits u [])"
  by (simp add: fmtInteger_def Let_def)

lemma fmtInteger_chars:
  assumes "c \<in> set (fmtInteger u)"
  shows "c = CHR ''-'' \<or> c \<in> set ''0123456789''"
proof (cases "sint u < 0")
  case True
  with assms have "c = CHR ''-'' \<or> c \<in> set (fmt_digits (- u) [])"
    by (simp add: fmtInteger_eq)
  then show ?thesis
    using fmt_digits_set [of "- u"] by blast
next
  case False
  with assms have "c \<in> set (fmt_digits u [])"
    by (simp add: fmtInteger_eq)
  then show ?thesis
    using fmt_digits_set [of u] by blast
qed

lemma minus_not_digit: "CHR ''-'' # ds \<noteq> fmt_digits v []"
proof
  assume "CHR ''-'' # ds = fmt_digits v []"
  then have "CHR ''-'' \<in> set (fmt_digits v [])"
    by (metis list.set_intros(1))
  with fmt_digits_set [of v] have "CHR ''-'' \<in> set ''0123456789''"
    by blast
  then show False
    by simp
qed

lemma comma_not_in_fmtInteger: "CHR '','' \<notin> set (fmtInteger w)"
proof
  assume "CHR '','' \<in> set (fmtInteger w)"
  then have "CHR '','' = CHR ''-'' \<or> CHR '','' \<in> set ''0123456789''"
    by (rule fmtInteger_chars)
  then show False
    by simp
qed

lemma bracket_not_in_fmtInteger: "CHR '']'' \<notin> set (fmtInteger h)"
proof
  assume "CHR '']'' \<in> set (fmtInteger h)"
  then have "CHR '']'' = CHR ''-'' \<or> CHR '']'' \<in> set ''0123456789''"
    by (rule fmtInteger_chars)
  then show False
    by simp
qed

lemma fmtInteger_inj:
  assumes "fmtInteger u = fmtInteger v"
  shows "u = v"
proof (cases "sint u < 0")
  case u: True
  show ?thesis
  proof (cases "sint v < 0")
    case True
    with u assms have "fmt_digits (- u) [] = fmt_digits (- v) []"
      by (simp add: fmtInteger_eq)
    then have "- u = - v"
      by (rule fmt_digits_inj)
    then show ?thesis by simp
  next
    case False
    with u assms minus_not_digit [of "fmt_digits (- u) []" v] show ?thesis
      by (simp add: fmtInteger_eq)
  qed
next
  case u: False
  show ?thesis
  proof (cases "sint v < 0")
    case True
    with u assms minus_not_digit [of "fmt_digits (- v) []" u] show ?thesis
      by (simp add: fmtInteger_eq)
  next
    case False
    with u assms show ?thesis
      by (simp add: fmtInteger_eq fmt_digits_inj)
  qed
qed

section \<open>Splitting the rendering at its delimiters\<close>

text \<open>
  A comma cannot occur in the width and a closing bracket cannot occur in the height, so
  the first comma and the first closing bracket of a rendering mark where they end.
\<close>

lemma append_delim_eq_iff:
  assumes "x \<notin> set xs" "x \<notin> set ys"
  shows "xs @ x # xs' = ys @ x # ys' \<longleftrightarrow> xs = ys \<and> xs' = ys'"
  using assms
proof (induction xs arbitrary: ys)
  case Nil
  then show ?case by (cases ys) auto
next
  case (Cons a xs)
  then show ?case by (cases ys) auto
qed

lemma String_eq:
  "String r = Inr (''['' @ fmtInteger (Width r) @ '', '' @ fmtInteger (Height r) @ ''] at ''
                    @ fmtC (scast (Scan r)))"
  by (simp add: String_def Sprintf_def and_then_def printArg_def)

lemma String_eq_iff:
  "String a = String b \<longleftrightarrow>
     Width a = Width b \<and> Height a = Height b \<and> fmtC (scast (Scan a)) = fmtC (scast (Scan b))"
proof -
  note comma = comma_not_in_fmtInteger
  note bracket = bracket_not_in_fmtInteger
  have "String a = String b \<longleftrightarrow>
      fmtInteger (Width a) @ CHR '','' # ('' '' @ fmtInteger (Height a) @ ''] at '' @ fmtC (scast (Scan a)))
    = fmtInteger (Width b) @ CHR '','' # ('' '' @ fmtInteger (Height b) @ ''] at '' @ fmtC (scast (Scan b)))"
    by (simp add: String_eq)
  also have "\<dots> \<longleftrightarrow> fmtInteger (Width a) = fmtInteger (Width b)
      \<and> fmtInteger (Height a) @ CHR '']'' # ('' at '' @ fmtC (scast (Scan a)))
        = fmtInteger (Height b) @ CHR '']'' # ('' at '' @ fmtC (scast (Scan b)))"
    by (simp add: append_delim_eq_iff [OF comma comma])
  also have "\<dots> \<longleftrightarrow> fmtInteger (Width a) = fmtInteger (Width b)
      \<and> fmtInteger (Height a) = fmtInteger (Height b)
      \<and> fmtC (scast (Scan a)) = fmtC (scast (Scan b))"
    by (simp add: append_delim_eq_iff [OF bracket bracket])
  also have "\<dots> \<longleftrightarrow> Width a = Width b \<and> Height a = Height b
      \<and> fmtC (scast (Scan a)) = fmtC (scast (Scan b))"
    by (auto dest: fmtInteger_inj)
  finally show ?thesis .
qed

section \<open>Signed and unsigned readings of a rune\<close>

text \<open>
  \<open>fmtC\<close> compares the operand widened to 64 bits, \<open>AppendRune\<close> compares
  \<^verbatim>\<open>uint32(r)\<close>, and \<open>ValidRune\<close> compares the signed rune. The three agree:
  a negative rune is large when read unsigned.
\<close>

lemma sint32_cases:
  fixes r :: "32 word"
  shows "0 \<le> sint r \<and> uint r = sint r \<or> sint r < 0 \<and> uint r = sint r + 4294967296"
proof (cases "0 \<le> sint r")
  case True
  moreover have "sint r < 4294967296"
    using sint_lt [of r] by simp
  ultimately have "sint r mod 4294967296 = sint r"
    by (simp only: mod_pos_pos_trivial)
  with True show ?thesis
    using uint_sint [of r] by (simp add: take_bit_eq_mod)
next
  case False
  have "- 2147483648 \<le> sint r"
    using sint_ge [of r] by simp
  with False have "0 \<le> sint r + 4294967296" "sint r + 4294967296 < 4294967296"
    by simp_all
  then have "(sint r + 4294967296) mod 4294967296 = sint r + 4294967296"
    by (simp only: mod_pos_pos_trivial)
  then have "sint r mod 4294967296 = sint r + 4294967296"
    by simp
  with False show ?thesis
    using uint_sint [of r] by (simp add: take_bit_eq_mod)
qed

lemma sint64_cases:
  fixes r :: "64 word"
  shows "0 \<le> sint r \<and> uint r = sint r \<or> sint r < 0 \<and> uint r = sint r + 18446744073709551616"
proof (cases "0 \<le> sint r")
  case True
  moreover have "sint r < 18446744073709551616"
    using sint_lt [of r] by simp
  ultimately have "sint r mod 18446744073709551616 = sint r"
    by (simp only: mod_pos_pos_trivial)
  with True show ?thesis
    using uint_sint [of r] by (simp add: take_bit_eq_mod)
next
  case False
  have "- 9223372036854775808 \<le> sint r"
    using sint_ge [of r] by simp
  with False have "0 \<le> sint r + 18446744073709551616"
      "sint r + 18446744073709551616 < 18446744073709551616"
    by simp_all
  then have "(sint r + 18446744073709551616) mod 18446744073709551616 = sint r + 18446744073709551616"
    by (simp only: mod_pos_pos_trivial)
  then have "sint r mod 18446744073709551616 = sint r + 18446744073709551616"
    by simp
  with False show ?thesis
    using uint_sint [of r] by (simp add: take_bit_eq_mod)
qed

lemma sint_scast_32_64:
  fixes s :: "32 word"
  shows "sint (scast s :: 64 word) = sint s"
  by (rule sint_up_scast) (simp add: is_up)

lemma scast_above_MaxRune:
  fixes s :: "32 word"
  shows "(0x10FFFF :: 64 word) < scast s \<longleftrightarrow> 0x10FFFF < s"
proof -
  have "- 2147483648 \<le> sint s" "sint s < 2147483648"
    using sint_ge [of s] sint_lt [of s] by simp_all
  with sint32_cases [of s] sint64_cases [of "scast s"] show ?thesis
    unfolding word_less_def sint_scast_32_64 by auto
qed

lemma ucast_scast_32_64:
  fixes s :: "32 word"
  shows "(ucast (scast s :: 64 word) :: 32 word) = s"
  by (rule bit_word_eqI) (auto simp: bit_simps)

lemma ValidRune_unsigned:
  "ValidRune r \<longleftrightarrow> r \<le> 0x10FFFF \<and> \<not> (0xD800 \<le> r \<and> r \<le> 0xDFFF)"
proof -
  have "- 2147483648 \<le> sint r" "sint r < 2147483648"
    using sint_ge [of r] sint_lt [of r] by simp_all
  with sint32_cases [of r] show ?thesis
    unfolding ValidRune_def word_le_def by auto
qed

section \<open>The bytes of a code point determine it\<close>

text \<open>
  A valid code point is put together again from the payload bits of its one to four
  bytes, and the number of bytes tells the four ranges apart; hence \<open>AppendRune\<close> is
  injective on valid code points, while every other rune is written as U+FFFD.
\<close>

lemma byte_char_inj: "byte_char a = byte_char b \<longleftrightarrow> a = b"
proof -
  have "unat a < 256" "unat b < 256"
    using unsigned_less [of a] unsigned_less [of b] by simp_all
  then show ?thesis
    by (auto simp: byte_char_def word_unat_eq_iff)
qed

lemma bits_below:
  fixes r :: "32 word"
  assumes "uint r < 2 ^ k" "bit r n"
  shows "n < k"
proof -
  from assms(1) have "r AND mask k = r"
    by (simp only: mask_eq_iff)
  with assms(2) bit_and_iff [of r "mask k" n] show ?thesis
    by (simp add: bit_simps)
qed

lemma rune_of_bytes_1:
  fixes r :: "32 word"
  assumes "r \<le> 0x7F"
  shows "r = ucast (ucast r :: 8 word)"
proof (rule bit_word_eqI)
  fix n :: nat
  assume "n < LENGTH(32)"
  from assms have "uint r < 2 ^ 7"
    by (simp add: word_le_def)
  note hi = bits_below [OF this]
  show "bit r n \<longleftrightarrow> bit (ucast (ucast r :: 8 word) :: 32 word) n"
  proof (cases "n < 7")
    case True
    then show ?thesis by (simp add: bit_simps)
  next
    case False
    with hi [of n] have "\<not> bit r n" by auto
    with False show ?thesis by (simp add: bit_simps)
  qed
qed

lemma rune_of_bytes_2:
  fixes r :: "32 word"
  assumes "r \<le> 0x7FF"
  shows "r = push_bit 6 (ucast ((ucast (signed_drop_bit 6 r) :: 8 word) AND mask 5))
             OR ucast ((ucast r :: 8 word) AND mask 6)"
  (is "r = ?rhs")
proof (rule bit_word_eqI)
  fix n :: nat
  assume "n < LENGTH(32)"
  from assms have "uint r < 2 ^ 11"
    by (simp add: word_le_def)
  note hi = bits_below [OF this]
  consider "n < 6" | m where "n = 6 + m" "m < 5" | "11 \<le> n"
  proof -
    have "n < 6 \<or> (n = 6 + (n - 6) \<and> n - 6 < 5) \<or> 11 \<le> n"
      by linarith
    then show ?thesis using that by blast
  qed
  then show "bit r n \<longleftrightarrow> bit ?rhs n"
  proof cases
    case 1
    then show ?thesis by (simp add: bit_simps)
  next
    case 2
    then show ?thesis by (simp add: bit_simps)
  next
    case 3
    with hi [of n] have "\<not> bit r n" by auto
    with 3 show ?thesis by (simp add: bit_simps)
  qed
qed

lemma rune_of_bytes_3:
  fixes r :: "32 word"
  assumes "r \<le> 0xFFFF"
  shows "r = push_bit 12 (ucast ((ucast (signed_drop_bit 12 r) :: 8 word) AND mask 4))
             OR push_bit 6 (ucast ((ucast (signed_drop_bit 6 r) :: 8 word) AND mask 6))
             OR ucast ((ucast r :: 8 word) AND mask 6)"
  (is "r = ?rhs")
proof (rule bit_word_eqI)
  fix n :: nat
  assume "n < LENGTH(32)"
  from assms have "uint r < 2 ^ 16"
    by (simp add: word_le_def)
  note hi = bits_below [OF this]
  consider "n < 6" | m where "n = 6 + m" "m < 6" | m where "n = 12 + m" "m < 4" | "16 \<le> n"
  proof -
    have "n < 6 \<or> (n = 6 + (n - 6) \<and> n - 6 < 6) \<or> (n = 12 + (n - 12) \<and> n - 12 < 4) \<or> 16 \<le> n"
      by linarith
    then show ?thesis using that by blast
  qed
  then show "bit r n \<longleftrightarrow> bit ?rhs n"
  proof cases
    case 1
    then show ?thesis by (simp add: bit_simps)
  next
    case 2
    then show ?thesis by (simp add: bit_simps)
  next
    case 3
    then show ?thesis by (simp add: bit_simps)
  next
    case 4
    with hi [of n] have "\<not> bit r n" by auto
    with 4 show ?thesis by (simp add: bit_simps)
  qed
qed

lemma rune_of_bytes_4:
  fixes r :: "32 word"
  assumes "r \<le> 0x10FFFF"
  shows "r = push_bit 18 (ucast ((ucast (signed_drop_bit 18 r) :: 8 word) AND mask 3))
             OR push_bit 12 (ucast ((ucast (signed_drop_bit 12 r) :: 8 word) AND mask 6))
             OR push_bit 6 (ucast ((ucast (signed_drop_bit 6 r) :: 8 word) AND mask 6))
             OR ucast ((ucast r :: 8 word) AND mask 6)"
  (is "r = ?rhs")
proof (rule bit_word_eqI)
  fix n :: nat
  assume "n < LENGTH(32)"
  from assms have "uint r < 2 ^ 21"
    by (simp add: word_le_def)
  note hi = bits_below [OF this]
  consider "n < 6" | m where "n = 6 + m" "m < 6" | m where "n = 12 + m" "m < 6"
    | m where "n = 18 + m" "m < 3" | "21 \<le> n"
  proof -
    have "n < 6 \<or> (n = 6 + (n - 6) \<and> n - 6 < 6) \<or> (n = 12 + (n - 12) \<and> n - 12 < 6)
        \<or> (n = 18 + (n - 18) \<and> n - 18 < 3) \<or> 21 \<le> n"
      by linarith
    then show ?thesis using that by blast
  qed
  then show "bit r n \<longleftrightarrow> bit ?rhs n"
  proof cases
    case 1
    then show ?thesis by (simp add: bit_simps)
  next
    case 2
    then show ?thesis by (simp add: bit_simps)
  next
    case 3
    then show ?thesis by (simp add: bit_simps)
  next
    case 4
    then show ?thesis by (simp add: bit_simps)
  next
    case 5
    with hi [of n] have "\<not> bit r n" by auto
    with 5 show ?thesis by (simp add: bit_simps)
  qed
qed

lemma lead_byte_2: "(0xC0 OR x) AND mask 5 = x AND (mask 5 :: 8 word)"
  by (simp add: bit.conj_disj_distrib2 mask_eq_exp_minus_1)

lemma lead_byte_3: "(0xE0 OR x) AND mask 4 = x AND (mask 4 :: 8 word)"
  by (simp add: bit.conj_disj_distrib2 mask_eq_exp_minus_1)

lemma lead_byte_4: "(0xF0 OR x) AND mask 3 = x AND (mask 3 :: 8 word)"
  by (simp add: bit.conj_disj_distrib2 mask_eq_exp_minus_1)

lemma cont_byte: "(0x80 OR (x AND 0x3F)) AND mask 6 = x AND (mask 6 :: 8 word)"
  by (simp add: bit.conj_disj_distrib2 mask_eq_exp_minus_1 and.assoc)

lemma AppendRune_1:
  "r \<le> 0x7F \<Longrightarrow> AppendRune r = [byte_char (ucast r)]"
  by (simp add: AppendRune_def)

lemma AppendRune_2:
  "\<not> r \<le> 0x7F \<Longrightarrow> r \<le> 0x7FF \<Longrightarrow>
     AppendRune r = [byte_char (0xC0 OR ucast (signed_drop_bit 6 r)),
                     byte_char (0x80 OR (ucast r AND 0x3F))]"
  by (simp add: AppendRune_def)

lemma AppendRune_3:
  "\<not> r \<le> 0x7FF \<Longrightarrow> r \<le> 0xFFFF \<Longrightarrow> \<not> (0xD800 \<le> r \<and> r \<le> 0xDFFF) \<Longrightarrow>
     AppendRune r = [byte_char (0xE0 OR ucast (signed_drop_bit 12 r)),
                     byte_char (0x80 OR (ucast (signed_drop_bit 6 r) AND 0x3F)),
                     byte_char (0x80 OR (ucast r AND 0x3F))]"
proof -
  assume a: "\<not> r \<le> 0x7FF" "r \<le> 0xFFFF" "\<not> (0xD800 \<le> r \<and> r \<le> 0xDFFF)"
  from a(1) have "\<not> r \<le> 0x7F"
    by (simp add: word_le_def)
  moreover from a(2) have "\<not> 0x10FFFF < r"
    by (simp add: word_le_def word_less_def)
  ultimately have small: "\<not> r \<le> 0x7F" "\<not> 0x10FFFF < r" .
  show ?thesis
  proof (cases "0xD800 \<le> r")
    case True
    with a(3) have "\<not> r \<le> 0xDFFF" by simp
    with small a(1,2) show ?thesis by (simp add: AppendRune_def)
  next
    case False
    with small a(1,2) show ?thesis by (simp add: AppendRune_def)
  qed
qed

lemma AppendRune_4:
  "\<not> r \<le> 0xFFFF \<Longrightarrow> r \<le> 0x10FFFF \<Longrightarrow>
     AppendRune r = [byte_char (0xF0 OR ucast (signed_drop_bit 18 r)),
                     byte_char (0x80 OR (ucast (signed_drop_bit 12 r) AND 0x3F)),
                     byte_char (0x80 OR (ucast (signed_drop_bit 6 r) AND 0x3F)),
                     byte_char (0x80 OR (ucast r AND 0x3F))]"
proof -
  assume a: "\<not> r \<le> 0xFFFF" "r \<le> 0x10FFFF"
  from a(1) have "\<not> r \<le> 0x7F" "\<not> r \<le> 0x7FF" "\<not> r \<le> 0xDFFF"
    by (simp_all add: word_le_def)
  moreover from a(2) have "\<not> 0x10FFFF < r"
    by (simp add: word_le_def word_less_def)
  ultimately show ?thesis
    using a by (simp add: AppendRune_def)
qed

lemma AppendRune_invalid:
  assumes "\<not> ValidRune r"
  shows "AppendRune r = AppendRune 0xFFFD"
proof -
  from assms have bad: "0x10FFFF < r \<or> (0xD800 \<le> r \<and> r \<le> 0xDFFF)"
    by (auto simp: ValidRune_unsigned)
  then have "\<not> r \<le> 0x7F" "\<not> r \<le> 0x7FF"
    by (auto simp: word_le_def word_less_def)
  with bad have "AppendRune r =
      [byte_char (0xE0 OR ucast (signed_drop_bit 12 (0xFFFD :: rune))),
       byte_char (0x80 OR (ucast (signed_drop_bit 6 (0xFFFD :: rune)) AND 0x3F)),
       byte_char (0x80 OR (ucast (0xFFFD :: rune) AND 0x3F))]"
    by (simp add: AppendRune_def)
  also have "\<dots> = AppendRune 0xFFFD"
    by (simp add: AppendRune_def)
  finally show ?thesis .
qed

lemma lead_byte_2_eq: "0xC0 OR x = 0xC0 OR y \<Longrightarrow> x AND mask 5 = y AND (mask 5 :: 8 word)"
  by (metis lead_byte_2)

lemma lead_byte_3_eq: "0xE0 OR x = 0xE0 OR y \<Longrightarrow> x AND mask 4 = y AND (mask 4 :: 8 word)"
  by (metis lead_byte_3)

lemma lead_byte_4_eq: "0xF0 OR x = 0xF0 OR y \<Longrightarrow> x AND mask 3 = y AND (mask 3 :: 8 word)"
  by (metis lead_byte_4)

lemma cont_byte_eq:
  "0x80 OR (x AND 0x3F) = 0x80 OR (y AND 0x3F) \<Longrightarrow> x AND mask 6 = y AND (mask 6 :: 8 word)"
  by (metis cont_byte)

lemma rune_class:
  assumes "ValidRune r"
  obtains (one) "r \<le> 0x7F"
  | (two) "\<not> r \<le> 0x7F" "r \<le> 0x7FF"
  | (three) "\<not> r \<le> 0x7FF" "r \<le> 0xFFFF" "\<not> (0xD800 \<le> r \<and> r \<le> 0xDFFF)"
  | (four) "\<not> r \<le> 0xFFFF" "r \<le> 0x10FFFF"
  using assms unfolding ValidRune_unsigned by blast

lemma AppendRune_length:
  assumes "ValidRune r"
  shows "length (AppendRune r) =
    (if r \<le> 0x7F then 1 else if r \<le> 0x7FF then 2 else if r \<le> 0xFFFF then 3 else 4)"
  using assms
proof (cases rule: rune_class)
  case one
  then show ?thesis by (simp add: AppendRune_1)
next
  case two
  then show ?thesis by (simp add: AppendRune_2)
next
  case three
  then have "\<not> r \<le> 0x7F"
    by (simp add: word_le_def)
  with three show ?thesis by (simp add: AppendRune_3)
next
  case four
  then have "\<not> r \<le> 0x7F" "\<not> r \<le> 0x7FF"
    by (simp_all add: word_le_def)
  with four show ?thesis by (simp add: AppendRune_4)
qed

lemma AppendRune_inj:
  assumes a: "ValidRune a" and b: "ValidRune b" and eq: "AppendRune a = AppendRune b"
  shows "a = b"
proof -
  from eq have len: "length (AppendRune a) = length (AppendRune b)"
    by simp
  from a show ?thesis
  proof (cases rule: rune_class)
    case one
    with len have "length (AppendRune b) = 1"
      by (simp add: AppendRune_1)
    then have b1: "b \<le> 0x7F"
      by (simp add: AppendRune_length [OF b] split: if_splits)
    from eq have "(ucast a :: 8 word) = ucast b"
      by (simp add: AppendRune_1 [OF one] AppendRune_1 [OF b1] byte_char_inj)
    then show ?thesis
      using rune_of_bytes_1 [OF one] rune_of_bytes_1 [OF b1] by simp
  next
    case two
    with len have "length (AppendRune b) = 2"
      by (simp add: AppendRune_2)
    then have b2: "\<not> b \<le> 0x7F" "b \<le> 0x7FF"
      by (simp_all add: AppendRune_length [OF b] split: if_splits)
    from eq have e:
      "(0xC0 OR ucast (signed_drop_bit 6 a) :: 8 word) = 0xC0 OR ucast (signed_drop_bit 6 b)"
      "(0x80 OR (ucast a AND 0x3F) :: 8 word) = 0x80 OR (ucast b AND 0x3F)"
      by (simp_all add: AppendRune_2 [OF two] AppendRune_2 [OF b2] byte_char_inj)
    have
      "(ucast (signed_drop_bit 6 a) :: 8 word) AND mask 5 = ucast (signed_drop_bit 6 b) AND mask 5"
      "(ucast a :: 8 word) AND mask 6 = ucast b AND mask 6"
      by (rule lead_byte_2_eq [OF e(1)], rule cont_byte_eq [OF e(2)])
    then show ?thesis
      using rune_of_bytes_2 [OF two(2)] rune_of_bytes_2 [OF b2(2)] by simp
  next
    case three
    with len have "length (AppendRune b) = 3"
      by (simp add: AppendRune_3)
    then have b3: "\<not> b \<le> 0x7FF" "b \<le> 0xFFFF"
      by (simp_all add: AppendRune_length [OF b] split: if_splits)
    from b b3 have b3': "\<not> (0xD800 \<le> b \<and> b \<le> 0xDFFF)"
      by (simp add: ValidRune_unsigned)
    from eq have e:
      "(0xE0 OR ucast (signed_drop_bit 12 a) :: 8 word) = 0xE0 OR ucast (signed_drop_bit 12 b)"
      "(0x80 OR (ucast (signed_drop_bit 6 a) AND 0x3F) :: 8 word)
         = 0x80 OR (ucast (signed_drop_bit 6 b) AND 0x3F)"
      "(0x80 OR (ucast a AND 0x3F) :: 8 word) = 0x80 OR (ucast b AND 0x3F)"
      by (simp_all add: AppendRune_3 [OF three] AppendRune_3 [OF b3 b3'] byte_char_inj)
    have
      "(ucast (signed_drop_bit 12 a) :: 8 word) AND mask 4 = ucast (signed_drop_bit 12 b) AND mask 4"
      "(ucast (signed_drop_bit 6 a) :: 8 word) AND mask 6 = ucast (signed_drop_bit 6 b) AND mask 6"
      "(ucast a :: 8 word) AND mask 6 = ucast b AND mask 6"
      by (rule lead_byte_3_eq [OF e(1)], rule cont_byte_eq [OF e(2)], rule cont_byte_eq [OF e(3)])
    then show ?thesis
      using rune_of_bytes_3 [OF three(2)] rune_of_bytes_3 [OF b3(2)] by simp
  next
    case four
    with len have "length (AppendRune b) = 4"
      by (simp add: AppendRune_4)
    then have b4: "\<not> b \<le> 0xFFFF"
      by (simp add: AppendRune_length [OF b] split: if_splits)
    from b have b4': "b \<le> 0x10FFFF"
      by (simp add: ValidRune_unsigned)
    from eq have e:
      "(0xF0 OR ucast (signed_drop_bit 18 a) :: 8 word) = 0xF0 OR ucast (signed_drop_bit 18 b)"
      "(0x80 OR (ucast (signed_drop_bit 12 a) AND 0x3F) :: 8 word)
         = 0x80 OR (ucast (signed_drop_bit 12 b) AND 0x3F)"
      "(0x80 OR (ucast (signed_drop_bit 6 a) AND 0x3F) :: 8 word)
         = 0x80 OR (ucast (signed_drop_bit 6 b) AND 0x3F)"
      "(0x80 OR (ucast a AND 0x3F) :: 8 word) = 0x80 OR (ucast b AND 0x3F)"
      by (simp_all add: AppendRune_4 [OF four] AppendRune_4 [OF b4 b4'] byte_char_inj)
    have
      "(ucast (signed_drop_bit 18 a) :: 8 word) AND mask 3 = ucast (signed_drop_bit 18 b) AND mask 3"
      "(ucast (signed_drop_bit 12 a) :: 8 word) AND mask 6 = ucast (signed_drop_bit 12 b) AND mask 6"
      "(ucast (signed_drop_bit 6 a) :: 8 word) AND mask 6 = ucast (signed_drop_bit 6 b) AND mask 6"
      "(ucast a :: 8 word) AND mask 6 = ucast b AND mask 6"
      by (rule lead_byte_4_eq [OF e(1)], rule cont_byte_eq [OF e(2)], rule cont_byte_eq [OF e(3)],
          rule cont_byte_eq [OF e(4)])
    then show ?thesis
      using rune_of_bytes_4 [OF four(2)] rune_of_bytes_4 [OF b4'] by simp
  qed
qed

lemma ValidRune_RuneError: "ValidRune 0xFFFD"
  by (simp add: ValidRune_def)

lemma fmtC_scast:
  "fmtC (scast s) = AppendRune (if ValidRune s then s else 0xFFFD)"
proof (cases "ValidRune s")
  case True
  then have "\<not> 0x10FFFF < s"
    by (simp add: ValidRune_unsigned word_le_def word_less_def)
  with True show ?thesis
    by (simp add: fmtC_def scast_above_MaxRune ucast_scast_32_64)
next
  case False
  then have "fmtC (scast s) = AppendRune 0xFFFD"
    by (simp add: fmtC_def scast_above_MaxRune ucast_scast_32_64 AppendRune_invalid)
  with False show ?thesis
    by simp
qed

lemma fmtC_scast_eq_iff:
  "fmtC (scast a) = fmtC (scast b) \<longleftrightarrow>
     (if ValidRune a then a else 0xFFFD) = (if ValidRune b then b else 0xFFFD)"
proof -
  let ?a = "if ValidRune a then a else 0xFFFD"
  let ?b = "if ValidRune b then b else 0xFFFD"
  have va: "ValidRune ?a" and vb: "ValidRune ?b"
    by (simp_all add: ValidRune_RuneError)
  show ?thesis
  proof
    assume "fmtC (scast a) = fmtC (scast b)"
    then have "AppendRune ?a = AppendRune ?b"
      by (simp only: fmtC_scast)
    with va vb show "?a = ?b"
      by (rule AppendRune_inj)
  next
    assume "?a = ?b"
    then show "fmtC (scast a) = fmtC (scast b)"
      by (simp only: fmtC_scast)
  qed
qed

section \<open>Properties of the rendering\<close>

text \<open>
  C2. For every domain value the rendering is the opening bracket, the width in decimal,
  a comma and a space, the height in decimal, the text \<open>] at\<close> with its two spaces,
  and the scan character (the UTF-8 encoding of the code point, U+FFFD standing in for a
  value that is not a code point): width, height, scan in that order. The value
  10, 10, \<open>P\<close> renders to \<open>[10, 10] at P\<close>.
\<close>

theorem String_format:
  "String r = Inr (''['' @ fmtInteger (Width r) @ '', '' @ fmtInteger (Height r) @ ''] at ''
                    @ AppendRune (if ValidRune (Scan r) then Scan r else 0xFFFD))
   \<and> String \<lparr>Width = 10, Height = 10, Scan = of_char CHR ''P''\<rparr> = Inr ''[10, 10] at P''"
proof -
  have "String \<lparr>Width = 10, Height = 10, Scan = of_char CHR ''P''\<rparr> = Inr ''[10, 10] at P''"
    by code_simp
  then show ?thesis
    by (simp add: String_eq fmtC_scast)
qed

text \<open>
  C7. Negative numbers are neither rejected nor changed. For every width, height and scan
  mode, negative ones included, the transfer value that stores them converts to the domain
  value with exactly these three values, and that domain value renders, without a fault,
  with the width and the height in decimal; a negative width or height is written as a
  minus sign followed by the digits of its magnitude, and domain values with different
  widths or heights never render alike (no value is clamped). In particular the transfer value
  -10, 10, \<open>P\<close> converts to the domain value -10, 10, \<open>P\<close>, which renders as
  \<open>[-10, 10] at P\<close>.
\<close>

theorem negative_values_pass_through:
  "AsResolution \<lparr>resolutionDTO.Width = Some w, Height = Some h, Scan = Some s\<rparr>
     = Inr \<lparr>Width = w, Height = h, Scan = s\<rparr>
   \<and> String \<lparr>Width = w, Height = h, Scan = s\<rparr>
     = Inr (''['' @ fmtInteger w @ '', '' @ fmtInteger h @ ''] at ''
             @ AppendRune (if ValidRune s then s else 0xFFFD))
   \<and> (sint w < 0 \<longrightarrow> fmtInteger w = CHR ''-'' # fmt_digits (- w) [])
   \<and> (sint h < 0 \<longrightarrow> fmtInteger h = CHR ''-'' # fmt_digits (- h) [])
   \<and> (String \<lparr>Width = w, Height = h, Scan = s\<rparr> = String \<lparr>Width = w', Height = h', Scan = s\<rparr>
        \<longleftrightarrow> w = w' \<and> h = h')
   \<and> AsResolution \<lparr>resolutionDTO.Width = Some (- 10), Height = Some 10,
                    Scan = Some (of_char CHR ''P'')\<rparr>
     = Inr \<lparr>Width = - 10, Height = 10, Scan = of_char CHR ''P''\<rparr>
   \<and> String \<lparr>Width = - 10, Height = 10, Scan = of_char CHR ''P''\<rparr> = Inr ''[-10, 10] at P''"
proof -
  have conv: "AsResolution \<lparr>resolutionDTO.Width = Some w', Height = Some h', Scan = Some s'\<rparr>
      = Inr \<lparr>Width = w', Height = h', Scan = s'\<rparr>" for w' h' s'
    by (simp add: AsResolution_eq)
  have render: "String \<lparr>Width = w, Height = h, Scan = s\<rparr>
      = Inr (''['' @ fmtInteger w @ '', '' @ fmtInteger h @ ''] at ''
              @ AppendRune (if ValidRune s then s else 0xFFFD))"
    by (simp add: String_eq fmtC_scast)
  have sign: "sint u < 0 \<longrightarrow> fmtInteger u = CHR ''-'' # fmt_digits (- u) []" for u
    by (simp add: fmtInteger_eq)
  have inst: "String \<lparr>Width = - 10, Height = 10, Scan = of_char CHR ''P''\<rparr> = Inr ''[-10, 10] at P''"
    by code_simp
  have distinct: "String \<lparr>Width = w, Height = h, Scan = s\<rparr>
      = String \<lparr>Width = w', Height = h', Scan = s\<rparr> \<longleftrightarrow> w = w' \<and> h = h'"
    by (simp add: String_eq_iff)
  from conv [of w h s] conv [of "- 10" 10 "of_char CHR ''P''"] render sign [of w] sign [of h]
    distinct inst
  show ?thesis
    by (simp only: simp_thms)
qed

theorem negative_values_pass_through_witness:
  "sint (- 10 :: go_int) < 0 \<and> sint (- 3 :: go_int) < 0
   \<and> AsResolution \<lparr>resolutionDTO.Width = Some (- 10), Height = Some (- 3), Scan = Some 80\<rparr>
     = Inr \<lparr>Width = - 10, Height = - 3, Scan = 80\<rparr>
   \<and> fmtInteger (- 10) = CHR ''-'' # fmt_digits 10 []
   \<and> fmtInteger (- 3) = CHR ''-'' # fmt_digits 3 []"
proof -
  have neg: "sint (- 10 :: go_int) < 0" "sint (- 3 :: go_int) < 0"
    by simp_all
  with negative_values_pass_through [of "- 10" "- 3" 80 0 0] show ?thesis
    by simp
qed

text \<open>
  C8. Rendering is deterministic: two domain values with the same width, height and scan
  mode render to the same string.
\<close>

theorem String_deterministic:
  assumes "Width a = Width b" and "Height a = Height b" and "Scan a = Scan b"
  shows "String a = String b"
  using assms by (simp add: String_def)

theorem String_deterministic_witness:
  "String (\<lparr>Width = 0, Height = 0, Scan = 0\<rparr>\<lparr>Width := 10, Height := 10, Scan := 80\<rparr>)
     = String \<lparr>Width = 10, Height = 10, Scan = 80\<rparr>"
  by (rule String_deterministic) simp_all

text \<open>
  C10, as stated, fails: a surrogate half is not a code point and is printed as U+FFFD, so
  the two different domain values 0, 0, U+D800 and 0, 0, U+FFFD render to the same string.
\<close>

theorem String_not_injective:
  "\<lparr>Width = 0, Height = 0, Scan = 0xD800\<rparr> \<noteq> \<lparr>Width = 0, Height = 0, Scan = 0xFFFD\<rparr>
   \<and> String \<lparr>Width = 0, Height = 0, Scan = 0xD800\<rparr>
     = String \<lparr>Width = 0, Height = 0, Scan = 0xFFFD\<rparr>"
proof -
  have "String \<lparr>Width = 0, Height = 0, Scan = 0xD800\<rparr>
      = String \<lparr>Width = 0, Height = 0, Scan = 0xFFFD\<rparr>"
    by code_simp
  then show ?thesis
    by simp
qed

text \<open>
  C10, amended. Two domain values render to the same string exactly when their widths are
  equal, their heights are equal, and their scan modes are equal once every value that is
  not a valid code point is replaced by U+FFFD. In particular the rendering is injective
  on the domain values whose scan mode is a valid code point: two of them that differ in
  width, height or scan mode render differently.
\<close>

theorem String_injective_on_valid_runes:
  "(String a = String b \<longleftrightarrow>
      Width a = Width b \<and> Height a = Height b
      \<and> (if ValidRune (Scan a) then Scan a else 0xFFFD)
        = (if ValidRune (Scan b) then Scan b else 0xFFFD))
   \<and> (ValidRune (Scan a) \<and> ValidRune (Scan b) \<and> String a = String b \<longrightarrow> a = b)"
proof -
  have iff: "String a = String b \<longleftrightarrow>
      Width a = Width b \<and> Height a = Height b
      \<and> (if ValidRune (Scan a) then Scan a else 0xFFFD)
        = (if ValidRune (Scan b) then Scan b else 0xFFFD)"
    by (simp only: String_eq_iff fmtC_scast_eq_iff)
  have "a = b" if "ValidRune (Scan a)" "ValidRune (Scan b)" "String a = String b"
  proof -
    from that iff have "Width a = Width b" "Height a = Height b" "Scan a = Scan b"
      by simp_all
    then show ?thesis
      by (cases a, cases b) simp
  qed
  with iff show ?thesis
    by blast
qed

theorem String_injective_on_valid_runes_witness:
  "ValidRune (of_char CHR ''P'') \<and> ValidRune (of_char CHR ''I'')
   \<and> String \<lparr>Width = 10, Height = 10, Scan = of_char CHR ''P''\<rparr>
     \<noteq> String \<lparr>Width = 10, Height = 10, Scan = of_char CHR ''I''\<rparr>
   \<and> String \<lparr>Width = 10, Height = 10, Scan = 0xD800\<rparr>
     = String \<lparr>Width = 10, Height = 10, Scan = - 1\<rparr>"
proof -
  have valid: "ValidRune (of_char CHR ''P'')" "ValidRune (of_char CHR ''I'')"
    by (simp_all add: ValidRune_def)
  have invalid: "\<not> ValidRune 0xD800" "\<not> ValidRune (- 1)"
    by (simp_all add: ValidRune_def)
  from valid String_injective_on_valid_runes
    [of "\<lparr>Width = 10, Height = 10, Scan = of_char CHR ''P''\<rparr>"
        "\<lparr>Width = 10, Height = 10, Scan = of_char CHR ''I''\<rparr>"]
  have differ: "String \<lparr>Width = 10, Height = 10, Scan = of_char CHR ''P''\<rparr>
      \<noteq> String \<lparr>Width = 10, Height = 10, Scan = of_char CHR ''I''\<rparr>"
    by auto
  from invalid String_injective_on_valid_runes
    [of "\<lparr>Width = 10, Height = 10, Scan = 0xD800\<rparr>"
        "\<lparr>Width = 10, Height = 10, Scan = - 1\<rparr>"]
  have same: "String \<lparr>Width = 10, Height = 10, Scan = 0xD800\<rparr>
      = String \<lparr>Width = 10, Height = 10, Scan = - 1\<rparr>"
    by simp
  from valid differ same show ?thesis
    by simp
qed

section \<open>Properties of the row loop\<close>

text \<open>
  C5. For a row whose composite is null the pointer is nil: the loop body does not read
  through it, converts nothing, and logs \<open>No defined resolution\<close>. For a row with a
  composite it logs \<open>Got\<close>, a space and the rendering of the converted value. The two
  messages are never the same, so no default domain value stands in for a null composite.
\<close>

theorem main_row_whole_value_absence:
  "main_row (Scanned None) = Inr ''No defined resolution''
   \<and> main_rows [Scanned None] = Inr [''No defined resolution'']
   \<and> (\<exists>res s. AsResolution rdto = Inr res \<and> String res = Inr s
         \<and> main_row (Scanned (Some rdto)) = Inr (''Got '' @ s))
   \<and> main_row (Scanned (Some rdto)) \<noteq> main_row (Scanned None)"
proof -
  have none: "main_row (Scanned None) = Inr ''No defined resolution''"
    by (simp add: main_row_def Sprintf_def and_then_def)
  obtain res where res: "AsResolution rdto = Inr res"
    by (simp add: AsResolution_eq)
  obtain s where s: "String res = Inr s"
    by (simp add: String_eq)
  have some: "main_row (Scanned (Some rdto)) = Inr (''Got '' @ s)"
    by (simp add: main_row_def deref_def res s Sprintf_def and_then_def printArg_def)
  from none have "main_rows [Scanned None] = Inr [''No defined resolution'']"
    by (simp add: and_then_def)
  with none some res s show ?thesis
    by simp
qed

end
